theory Spec2Isabelle
  imports
    Complex_Main
    "HOL-Library.Multiset"
    "HOL-Library.List_Lexorder"
    "HOL-Library.Char_ord"
begin

section \<open>Values shared by both scripts\<close>

text \<open>
  The value \<^verbatim>\<open>json.load\<close> returns. An object keeps its members in document order; a key
  that occurs twice reads as its last occurrence, as in Python's decoder. A number with
  a fraction or an exponent is a \<open>JFloat\<close>; its payload is the exact rational it denotes.
\<close>

datatype json =
    JNull
  | JBool bool
  | JInt int
  | JFloat rat
  | JString string
  | JArray "json list"
  | JObject "(string \<times> json) list"

datatype py_error = TypeError | AttributeError | KeyError | OSError

text \<open>
  A \<^verbatim>\<open>Path\<close> of the input directory: the file name and the size that
  \<^verbatim>\<open>stat().st_size\<close> reports for it.
\<close>

record path =
  name :: string
  st_size :: nat

type_synonym entry = "path \<times> json"

text \<open>A decoded raster: the rows from top to bottom, each row from left to right.\<close>

type_synonym 'p image = "'p list list"

definition img_height :: "'p image \<Rightarrow> nat" where
  "img_height img = length img"

definition img_width :: "'p image \<Rightarrow> nat" where
  "img_width img = (case img of [] \<Rightarrow> 0 | row # _ \<Rightarrow> length row)"

subsection \<open>The Python operations the scripts apply to the loaded JSON\<close>

text \<open>\<^verbatim>\<open>d[k]\<close> and \<^verbatim>\<open>k in d\<close> on a decoded object: the last member with that key.\<close>

definition dict_get :: "(string \<times> json) list \<Rightarrow> string \<Rightarrow> json option" where
  "dict_get kvs k = map_of (rev kvs) k"

text \<open>\<^verbatim>\<open>isinstance(data, dict) and key in data\<close>.\<close>

fun dict_has :: "json \<Rightarrow> string \<Rightarrow> bool" where
  "dict_has (JObject kvs) k = (dict_get kvs k \<noteq> None)"
| "dict_has _ k = False"

text \<open>\<^verbatim>\<open>data.get(key, default)\<close>; only objects have the method.\<close>

fun py_get :: "json \<Rightarrow> string \<Rightarrow> json \<Rightarrow> py_error + json" where
  "py_get (JObject kvs) k d = Inr (case dict_get kvs k of None \<Rightarrow> d | Some v \<Rightarrow> v)"
| "py_get _ k d = Inl AttributeError"

text \<open>\<^verbatim>\<open>len(x)\<close>: defined on objects, arrays and strings.\<close>

fun py_len :: "json \<Rightarrow> py_error + nat" where
  "py_len (JObject kvs) = Inr (card (fst ` set kvs))"
| "py_len (JArray xs) = Inr (length xs)"
| "py_len (JString s) = Inr (length s)"
| "py_len _ = Inl TypeError"

fun hashable :: "json \<Rightarrow> bool" where
  "hashable (JArray xs) = False"
| "hashable (JObject kvs) = False"
| "hashable _ = True"

text \<open>
  \<^verbatim>\<open>set(x)\<close>: the members of an array (all of them must be hashable), the characters of
  a string, the keys of an object. The scripts only test such a set for emptiness and
  for membership of a file name, and on both HOL's equality of \<open>json\<close> values agrees with
  Python's \<^verbatim>\<open>==\<close> (which also identifies \<^verbatim>\<open>1\<close>, \<^verbatim>\<open>1.0\<close> and \<^verbatim>\<open>True\<close>).
\<close>

fun py_set :: "json \<Rightarrow> py_error + json set" where
  "py_set (JArray xs) = (if list_all hashable xs then Inr (set xs) else Inl TypeError)"
| "py_set (JString s) = Inr ((\<lambda>c. JString [c]) ` set s)"
| "py_set (JObject kvs) = Inr (JString ` fst ` set kvs)"
| "py_set _ = Inl TypeError"

text \<open>The truth value of \<^verbatim>\<open>if rotation:\<close>.\<close>

fun truthy :: "json \<Rightarrow> bool" where
  "truthy JNull = False"
| "truthy (JBool b) = b"
| "truthy (JInt i) = (i \<noteq> 0)"
| "truthy (JFloat q) = (q \<noteq> 0)"
| "truthy (JString s) = (s \<noteq> [])"
| "truthy (JArray xs) = (xs \<noteq> [])"
| "truthy (JObject kvs) = (kvs \<noteq> [])"

text \<open>\<^verbatim>\<open>value == n\<close> for an integer literal \<^verbatim>\<open>n\<close>.\<close>

fun py_eq_int :: "json \<Rightarrow> int \<Rightarrow> bool" where
  "py_eq_int (JInt i) n = (i = n)"
| "py_eq_int (JFloat q) n = (q = of_int n)"
| "py_eq_int (JBool b) n = ((if b then 1 else 0) = n)"
| "py_eq_int _ n = False"

text \<open>\<^verbatim>\<open>filename in corrections\<close> of apply_corrections.py, for whatever was loaded.\<close>

fun is_substring :: "string \<Rightarrow> string \<Rightarrow> bool" where
  "is_substring k [] = (k = [])"
| "is_substring k (c # s) = (take (length k) (c # s) = k \<or> is_substring k s)"

fun py_contains :: "json \<Rightarrow> string \<Rightarrow> py_error + bool" where
  "py_contains (JObject kvs) k = Inr (dict_get kvs k \<noteq> None)"
| "py_contains (JArray xs) k = Inr (JString k \<in> set xs)"
| "py_contains (JString s) k = Inr (is_substring k s)"
| "py_contains _ k = Inl TypeError"

text \<open>\<^verbatim>\<open>corrections[filename]\<close>: a string key indexes an object only.\<close>

fun py_getitem :: "json \<Rightarrow> string \<Rightarrow> py_error + json" where
  "py_getitem (JObject kvs) k = (case dict_get kvs k of None \<Rightarrow> Inl KeyError | Some v \<Rightarrow> Inr v)"
| "py_getitem _ k = Inl TypeError"

section \<open>create_pdfs.py\<close>

subsection \<open>get_image_files\<close>

text \<open>
  \<^verbatim>\<open>str.rfind\<close> and pathlib's \<^verbatim>\<open>suffix\<close>: the part of the name from its last dot, when
  that dot is neither the first nor the last character.
\<close>

definition rfind :: "string \<Rightarrow> char \<Rightarrow> int" where
  "rfind s c =
     (if c \<in> set s then int (length s) - 1 - int (length (takeWhile (\<lambda>x. x \<noteq> c) (rev s)))
      else - 1)"

definition suffix :: "path \<Rightarrow> string" where
  "suffix f =
     (let i = rfind (name f) CHR ''.''
      in if 0 < i \<and> i < int (length (name f)) - 1 then drop (nat i) (name f) else [])"

definition extensions :: "string set" where
  "extensions = {''.jpeg'', ''.jpg'', ''.png'', ''.JPEG'', ''.JPG'', ''.PNG''}"

text \<open>
  The argument is what \<^verbatim>\<open>Path(input_dir).iterdir()\<close> yields, in the order the file
  system gives. Python compares strings by code point, which on UTF-8 encoded names is
  the byte-wise lexicographic order of \<open>string\<close>; \<^verbatim>\<open>sorted\<close> is stable, as \<open>sort_key\<close>.
\<close>

definition get_image_files :: "path list \<Rightarrow> path list" where
  "get_image_files listing = sort_key name (filter (\<lambda>f. suffix f \<in> extensions) listing)"

subsection \<open>rotate_image\<close>

text \<open>
  Pillow's \<^verbatim>\<open>Image.transpose\<close> for the three methods the script uses, as its C loops
  write the output raster: \<^verbatim>\<open>ROTATE_90\<close> stores input pixel \<open>(x, y)\<close> at row
  \<open>xsize - 1 - x\<close>, column \<open>y\<close>; \<^verbatim>\<open>ROTATE_270\<close> at row \<open>x\<close>, column \<open>ysize - 1 - y\<close>;
  \<^verbatim>\<open>ROTATE_180\<close> at row \<open>ysize - 1 - y\<close>, column \<open>xsize - 1 - x\<close>. Here each output
  pixel is read back from the input position that is stored there.
\<close>

datatype pil_transpose = PIL_ROTATE_90 | PIL_ROTATE_180 | PIL_ROTATE_270

fun transpose_pil :: "'p image \<Rightarrow> pil_transpose \<Rightarrow> 'p image" where
  "transpose_pil img PIL_ROTATE_90 =
     map (\<lambda>r. map (\<lambda>c. img ! c ! (img_width img - 1 - r)) [0..<img_height img])
       [0..<img_width img]"
| "transpose_pil img PIL_ROTATE_180 =
     map (\<lambda>r. map (\<lambda>c. img ! (img_height img - 1 - r) ! (img_width img - 1 - c))
       [0..<img_width img]) [0..<img_height img]"
| "transpose_pil img PIL_ROTATE_270 =
     map (\<lambda>r. map (\<lambda>c. img ! (img_height img - 1 - c) ! r) [0..<img_height img])
       [0..<img_width img]"

text \<open>Lines 22-30.\<close>

definition rotate_image :: "'p image \<Rightarrow> json \<Rightarrow> 'p image" where
  "rotate_image img degrees =
     (if py_eq_int degrees 90 then transpose_pil img PIL_ROTATE_90
      else if py_eq_int degrees 180 then transpose_pil img PIL_ROTATE_180
      else if py_eq_int degrees 270 then transpose_pil img PIL_ROTATE_270
      else img)"

subsection \<open>create_pdf\<close>

text \<open>
  The result of one call: the value returned, the pages saved to \<^verbatim>\<open>output_path\<close> (if
  \<^verbatim>\<open>save\<close> was called) and the names of the files a warning was printed for.
\<close>

record 'p pdf_result =
  page_count :: nat
  document :: "'p image list option"
  warnings :: "string list"

text \<open>
  Lines 41-60. \<open>opener p\<close> stands for \<^verbatim>\<open>Image.open(p)\<close>, \<^verbatim>\<open>seek(0)\<close> and
  \<^verbatim>\<open>convert('RGB')\<close>: the decoded image, or \<open>None\<close> when one of them raises.
\<close>

fun load_loop ::
  "(path \<Rightarrow> 'p image option) \<Rightarrow> entry list \<Rightarrow> 'p image option \<Rightarrow> 'p image list \<Rightarrow> string list
   \<Rightarrow> 'p image option \<times> 'p image list \<times> string list" where
  "load_loop opener [] first_image images warns = (first_image, images, warns)"
| "load_loop opener ((img_path, rotation) # rest) first_image images warns =
     (case opener img_path of
        None \<Rightarrow> load_loop opener rest first_image images (warns @ [name img_path])
      | Some img0 \<Rightarrow>
          (let img = (if truthy rotation then rotate_image img0 rotation else img0)
           in if first_image = None then load_loop opener rest (Some img) images warns
              else load_loop opener rest first_image (images @ [img]) warns))"

text \<open>
  Lines 33-78. \<open>saver pages\<close> tells whether \<^verbatim>\<open>first_image.save\<close> writes the document; when
  it raises, nothing in \<^verbatim>\<open>create_pdf\<close> catches the exception.
\<close>

definition create_pdf ::
  "(path \<Rightarrow> 'p image option) \<Rightarrow> ('p image list \<Rightarrow> bool) \<Rightarrow> entry list
   \<Rightarrow> py_error + 'p pdf_result" where
  "create_pdf opener saver image_data =
     (if image_data = [] then Inr \<lparr>page_count = 0, document = None, warnings = []\<rparr>
      else
        (let (first_image, images, warns) = load_loop opener image_data None [] []
         in case first_image of
              Some first \<Rightarrow>
                if saver (first # images)
                then Inr \<lparr>page_count = length images + 1, document = Some (first # images),
                           warnings = warns\<rparr>
                else Inl OSError
            | None \<Rightarrow> Inr \<lparr>page_count = 0, document = None, warnings = warns\<rparr>))"

subsection \<open>main: loading the review file\<close>

record review =
  corrections :: json
  section_breaks :: "json set"
  discards :: "json set"

text \<open>Lines 103-105: the values used when no review file exists.\<close>

definition no_review :: review where
  "no_review = \<lparr>corrections = JObject [], section_breaks = {}, discards = {}\<rparr>"

text \<open>
  Lines 109-117, for the loaded value \<open>data\<close>. The message printed after the branch
  evaluates \<^verbatim>\<open>len(corrections)\<close>, which raises on a value that has no length.
\<close>

definition load_review :: "json \<Rightarrow> py_error + review" where
  "load_review data =
     (case
        (if dict_has data ''corrections'' then
           (case py_get data ''corrections'' (JObject []) of
              Inl e \<Rightarrow> Inl e
            | Inr cs \<Rightarrow>
               (case py_get data ''sectionBreaks'' (JArray []) of
                  Inl e \<Rightarrow> Inl e
                | Inr sbv \<Rightarrow>
                   (case py_set sbv of
                      Inl e \<Rightarrow> Inl e
                    | Inr sb \<Rightarrow>
                       (case py_get data ''discards'' (JArray []) of
                          Inl e \<Rightarrow> Inl e
                        | Inr dsv \<Rightarrow>
                           (case py_set dsv of
                              Inl e \<Rightarrow> Inl e
                            | Inr ds \<Rightarrow>
                                Inr \<lparr>corrections = cs, section_breaks = sb, discards = ds\<rparr>)))))
         else Inr \<lparr>corrections = data, section_breaks = {}, discards = {}\<rparr>)
      of
        Inl e \<Rightarrow> Inl e
      | Inr rv \<Rightarrow> (case py_len (corrections rv) of Inl e \<Rightarrow> Inl e | Inr n \<Rightarrow> Inr rv))"

subsection \<open>main: removing discards and attaching rotations\<close>

text \<open>Lines 126-131.\<close>

fun filter_discards :: "review \<Rightarrow> path list \<Rightarrow> entry list \<Rightarrow> py_error + entry list" where
  "filter_discards rv [] images = Inr images"
| "filter_discards rv (img_path # rest) images =
     (let filename = name img_path
      in if JString filename \<notin> discards rv
         then (case py_get (corrections rv) filename (JInt 0) of
                 Inl e \<Rightarrow> Inl e
               | Inr rotation \<Rightarrow> filter_discards rv rest (images @ [(img_path, rotation)]))
         else filter_discards rv rest images)"

subsection \<open>main: splitting into sections\<close>


text \<open>
  Lines 142-152. One pass of the loop body closes the current section when the file is a
  section break and the section is non-empty, then appends the file.
\<close>

fun manual_loop ::
  "json set \<Rightarrow> entry list \<Rightarrow> entry list list \<Rightarrow> entry list \<Rightarrow> entry list list \<times> entry list" where
  "manual_loop breaks [] sections current_section = (sections, current_section)"
| "manual_loop breaks ((img_path, rotation) # rest) sections current_section =
     (let (sections', current_section') =
            (if JString (name img_path) \<in> breaks \<and> current_section \<noteq> []
             then (sections @ [current_section], [])
             else (sections, current_section))
      in manual_loop breaks rest sections' (current_section' @ [(img_path, rotation)]))"

definition manual_split :: "json set \<Rightarrow> entry list \<Rightarrow> entry list list" where
  "manual_split breaks images =
     (let (sections, current_section) = manual_loop breaks images [] []
      in if current_section \<noteq> [] then sections @ [current_section] else sections)"

text \<open>
  Lines 157-174. \<^verbatim>\<open>st_size * 0.85\<close> and the running sum are Python floats; the model
  computes them exactly, as rationals, and so leaves the rounding of double arithmetic
  out. The exact values compared by \<^verbatim>\<open>current_size + img_size > max_bytes\<close> are \<open>17/20\<close>
  of a natural number and an integer: they are equal or at least \<open>1/20\<close> apart. The
  rounding error of the float sum stays far below that for the sizes of real files (it is
  about \<open>2^-52\<close> of the sum per entry of the section), so the script and the model take
  the same branch whenever the exact values differ.
\<close>

definition img_size :: "path \<Rightarrow> rat" where
  "img_size img_path = of_nat (st_size img_path) * (85 / 100)"

fun auto_loop ::
  "int \<Rightarrow> entry list \<Rightarrow> entry list list \<Rightarrow> entry list \<Rightarrow> rat \<Rightarrow> entry list list \<times> entry list" where
  "auto_loop max_bytes [] sections current_section current_size = (sections, current_section)"
| "auto_loop max_bytes ((img_path, rotation) # rest) sections current_section current_size =
     (let (sections', current_section', current_size') =
            (if current_size + img_size img_path > of_int max_bytes \<and> current_section \<noteq> []
             then (sections @ [current_section], [], 0)
             else (sections, current_section, current_size))
      in auto_loop max_bytes rest sections' (current_section' @ [(img_path, rotation)])
           (current_size' + img_size img_path))"

definition auto_split :: "int \<Rightarrow> entry list \<Rightarrow> entry list list" where
  "auto_split max_bytes images =
     (let (sections, current_section) = auto_loop max_bytes images [] [] 0
      in if current_section \<noteq> [] then sections @ [current_section] else sections)"

text \<open>
  Lines 140-174: \<^verbatim>\<open>if section_breaks:\<close> selects the manual mode for a non-empty set;
  otherwise the bound is \<^verbatim>\<open>args.max_size * 1024 * 1024\<close>.
\<close>

definition split_sections :: "json set \<Rightarrow> int \<Rightarrow> entry list \<Rightarrow> entry list list" where
  "split_sections breaks max_size images =
     (if breaks \<noteq> {} then manual_split breaks images
      else auto_split (max_size * 1024 * 1024) images)"

subsection \<open>main\<close>

text \<open>Lines 184-189: one \<^verbatim>\<open>create_pdf\<close> call per section; an exception ends the run.\<close>

fun create_all ::
  "(path \<Rightarrow> 'p image option) \<Rightarrow> ('p image list \<Rightarrow> bool) \<Rightarrow> entry list list
   \<Rightarrow> py_error + 'p pdf_result list" where
  "create_all opener saver [] = Inr []"
| "create_all opener saver (section # rest) =
     (case create_pdf opener saver section of
        Inl e \<Rightarrow> Inl e
      | Inr r \<Rightarrow> (case create_all opener saver rest of Inl e \<Rightarrow> Inl e | Inr rs \<Rightarrow> Inr (r # rs)))"

text \<open>
  Lines 101-189. \<open>review_file\<close> is the decoded content of the review file, \<open>None\<close> when the
  file does not exist; \<open>listing\<close> is the content of the input directory, \<open>None\<close> when it
  cannot be listed. The result is what each \<^verbatim>\<open>create_pdf\<close> call produced, in order.
\<close>

definition create_pdfs_main ::
  "json option \<Rightarrow> path list option \<Rightarrow> (path \<Rightarrow> 'p image option) \<Rightarrow> ('p image list \<Rightarrow> bool) \<Rightarrow> int
   \<Rightarrow> py_error + 'p pdf_result list" where
  "create_pdfs_main review_file listing opener saver max_size =
     (case (case review_file of None \<Rightarrow> Inr no_review | Some data \<Rightarrow> load_review data) of
        Inl e \<Rightarrow> Inl e
      | Inr rv \<Rightarrow>
         (case listing of
            None \<Rightarrow> Inl OSError
          | Some files \<Rightarrow>
             (case filter_discards rv (get_image_files files) [] of
                Inl e \<Rightarrow> Inl e
              | Inr images \<Rightarrow>
                  if images = [] then Inr []
                  else create_all opener saver
                         (split_sections (section_breaks rv) max_size images))))"

section \<open>apply_corrections.py\<close>

subsection \<open>rotate_image\<close>

text \<open>
  OpenCV's \<^verbatim>\<open>cv2.rotate\<close>, as its implementation composes it: a transposition followed
  by a flip around the vertical axis (clockwise) or around the horizontal axis
  (counter-clockwise), and a flip around both axes for 180 degrees.
\<close>

datatype cv2_rotate_code = ROTATE_90_CLOCKWISE | ROTATE_180 | ROTATE_90_COUNTERCLOCKWISE

fun cv2_rotate :: "'p image \<Rightarrow> cv2_rotate_code \<Rightarrow> 'p image" where
  "cv2_rotate img ROTATE_90_CLOCKWISE = map rev (transpose img)"
| "cv2_rotate img ROTATE_180 = rev (map rev img)"
| "cv2_rotate img ROTATE_90_COUNTERCLOCKWISE = rev (transpose img)"

text \<open>Lines 13-21.\<close>

definition rotate_image_cv2 :: "'p image \<Rightarrow> json \<Rightarrow> 'p image" where
  "rotate_image_cv2 img angle =
     (if py_eq_int angle 90 then cv2_rotate img ROTATE_90_COUNTERCLOCKWISE
      else if py_eq_int angle 180 then cv2_rotate img ROTATE_180
      else if py_eq_int angle 270 then cv2_rotate img ROTATE_90_CLOCKWISE
      else img)"

subsection \<open>The loop of main\<close>

datatype 'a outcome = Raised | Returned 'a

text \<open>
  The file operations of the loop, by file name: \<^verbatim>\<open>cv2.imread\<close> returns an image or
  \<^verbatim>\<open>None\<close>, \<^verbatim>\<open>cv2.imwrite\<close> returns whether it wrote, and either may raise;
  \<open>copy2 n\<close> tells whether \<^verbatim>\<open>shutil.copy2\<close> succeeds (it raises otherwise).
\<close>

record 'p cv_env =
  imread :: "string \<Rightarrow> 'p image option outcome"
  imwrite :: "string \<Rightarrow> 'p image \<Rightarrow> bool outcome"
  copy2 :: "string \<Rightarrow> bool"

text \<open>The four counters of \<^verbatim>\<open>stats\<close>, with the files written and the files copied.\<close>

record 'p apply_run =
  rotated :: nat
  copied :: nat
  skipped :: nat
  errors :: nat
  written :: "(string \<times> 'p image) list"
  copies :: "string list"

definition initial_run :: "'p apply_run" where
  "initial_run = \<lparr>rotated = 0, copied = 0, skipped = 0, errors = 0, written = [], copies = []\<rparr>"

text \<open>
  Lines 60-88, the body of the loop for one image. \<^verbatim>\<open>corrections[filename]\<close> is
  evaluated before the \<^verbatim>\<open>try\<close>, and \<^verbatim>\<open>shutil.copy2\<close> outside of it: their exceptions
  end the run. Inside the \<^verbatim>\<open>try\<close>, a \<^verbatim>\<open>None\<close> from \<^verbatim>\<open>imread\<close> and any exception count
  as an error.
\<close>

definition apply_body ::
  "'p cv_env \<Rightarrow> json \<Rightarrow> bool \<Rightarrow> path \<Rightarrow> 'p apply_run \<Rightarrow> py_error + 'p apply_run" where
  "apply_body env corrs copy_unchanged img_path stats =
     (let filename = name img_path
      in case py_contains corrs filename of
           Inl e \<Rightarrow> Inl e
         | Inr present \<Rightarrow>
            if present then
              (case py_getitem corrs filename of
                 Inl e \<Rightarrow> Inl e
               | Inr angle \<Rightarrow>
                  (case imread env filename of
                     Raised \<Rightarrow> Inr (stats\<lparr>errors := errors stats + 1\<rparr>)
                   | Returned None \<Rightarrow> Inr (stats\<lparr>errors := errors stats + 1\<rparr>)
                   | Returned (Some img) \<Rightarrow>
                      (let rotated_img = rotate_image_cv2 img angle
                       in case imwrite env filename rotated_img of
                            Raised \<Rightarrow> Inr (stats\<lparr>errors := errors stats + 1\<rparr>)
                          | Returned ok \<Rightarrow>
                              Inr (stats\<lparr>rotated := rotated stats + 1,
                                         written := (if ok then written stats @ [(filename, rotated_img)]
                                                     else written stats)\<rparr>))))
            else if copy_unchanged then
              (if copy2 env filename
               then Inr (stats\<lparr>copied := copied stats + 1, copies := copies stats @ [filename]\<rparr>)
               else Inl OSError)
            else Inr (stats\<lparr>skipped := skipped stats + 1\<rparr>))"

text \<open>Lines 59-91: the loop over the images, in order.\<close>

fun apply_loop ::
  "'p cv_env \<Rightarrow> json \<Rightarrow> bool \<Rightarrow> path list \<Rightarrow> 'p apply_run \<Rightarrow> py_error + 'p apply_run" where
  "apply_loop env corrs copy_unchanged [] stats = Inr stats"
| "apply_loop env corrs copy_unchanged (img_path # rest) stats =
     (case apply_body env corrs copy_unchanged img_path stats of
        Inl e \<Rightarrow> Inl e
      | Inr stats' \<Rightarrow> apply_loop env corrs copy_unchanged rest stats')"

section \<open>Notions of the specification\<close>


text \<open>Two neighbouring entries that are both empty files.\<close>

fun adjacent_empty :: "entry list \<Rightarrow> bool" where
  "adjacent_empty (a # b # rest) =
     ((st_size (fst a) = 0 \<and> st_size (fst b) = 0) \<or> adjacent_empty (b # rest))"
| "adjacent_empty _ = False"

text \<open>
  Turns of a raster, by where each pixel goes. With \<open>x\<close> counted from the left and \<open>y\<close>
  from the top of a \<open>w\<close> by \<open>h\<close> image, a quarter turn counter-clockwise moves the pixel
  at \<open>(x, y)\<close> to row \<open>w - 1 - x\<close>, column \<open>y\<close> (the top right corner becomes the top left
  one); a quarter turn clockwise moves it to row \<open>x\<close>, column \<open>h - 1 - y\<close>; a half turn to
  row \<open>h - 1 - y\<close>, column \<open>w - 1 - x\<close>.
\<close>

definition rectangular :: "'p image \<Rightarrow> bool" where
  "rectangular img = (\<forall>row \<in> set img. length row = img_width img)"

definition quarter_turn_ccw :: "'p image \<Rightarrow> 'p image \<Rightarrow> bool" where
  "quarter_turn_ccw src dst =
     (length dst = img_width src \<and> (\<forall>row \<in> set dst. length row = img_height src) \<and>
      (\<forall>y \<in> {0..<img_height src}. \<forall>x \<in> {0..<img_width src}.
         dst ! (img_width src - 1 - x) ! y = src ! y ! x))"

definition quarter_turn_cw :: "'p image \<Rightarrow> 'p image \<Rightarrow> bool" where
  "quarter_turn_cw src dst =
     (length dst = img_width src \<and> (\<forall>row \<in> set dst. length row = img_height src) \<and>
      (\<forall>y \<in> {0..<img_height src}. \<forall>x \<in> {0..<img_width src}.
         dst ! x ! (img_height src - 1 - y) = src ! y ! x))"

definition half_turn :: "'p image \<Rightarrow> 'p image \<Rightarrow> bool" where
  "half_turn src dst =
     (length dst = img_height src \<and> (\<forall>row \<in> set dst. length row = img_width src) \<and>
      (\<forall>y \<in> {0..<img_height src}. \<forall>x \<in> {0..<img_width src}.
         dst ! (img_height src - 1 - y) ! (img_width src - 1 - x) = src ! y ! x))"

text \<open>
  The enumeration as the specification words it: the files whose extension is
  \<^verbatim>\<open>.jpeg\<close>, \<^verbatim>\<open>.jpg\<close> or \<^verbatim>\<open>.png\<close>, compared without regard to case, ordered by name.
\<close>

definition lower :: "char \<Rightarrow> char" where
  "lower c =
     (case map_of (zip ''ABCDEFGHIJKLMNOPQRSTUVWXYZ'' ''abcdefghijklmnopqrstuvwxyz'') c of
        None \<Rightarrow> c
      | Some l \<Rightarrow> l)"

definition spec_image_sequence :: "path list \<Rightarrow> path list" where
  "spec_image_sequence listing =
     sort_key name
       (filter (\<lambda>f. map lower (suffix f) \<in> {''.jpeg'', ''.jpg'', ''.png''}) listing)"

section \<open>Sections partition the corrected sequence\<close>

lemma manual_loop_concat:
  "manual_loop sb images sections cur = (sections', cur') \<Longrightarrow>
   concat sections' @ cur' = concat sections @ cur @ images"
proof (induction images arbitrary: sections cur)
  case Nil
  then show ?case by simp
next
  case (Cons e rest)
  obtain p r where e: "e = (p, r)" by (cases e)
  show ?case
  proof (cases "JString (name p) \<in> sb \<and> cur \<noteq> []")
    case True
    with Cons.prems e have "manual_loop sb rest (sections @ [cur]) [(p, r)] = (sections', cur')"
      by simp
    from Cons.IH [OF this] e show ?thesis by simp
  next
    case False
    with Cons.prems e have "manual_loop sb rest sections (cur @ [(p, r)]) = (sections', cur')"
      by auto
    from Cons.IH [OF this] e show ?thesis by simp
  qed
qed

lemma manual_loop_nonempty:
  "manual_loop sb images sections cur = (sections', cur') \<Longrightarrow>
   [] \<notin> set sections \<Longrightarrow> [] \<notin> set sections'"
proof (induction images arbitrary: sections cur)
  case Nil
  then show ?case by simp
next
  case (Cons e rest)
  obtain p r where e: "e = (p, r)" by (cases e)
  show ?case
  proof (cases "JString (name p) \<in> sb \<and> cur \<noteq> []")
    case True
    with Cons.prems e have "manual_loop sb rest (sections @ [cur]) [(p, r)] = (sections', cur')"
      by simp
    moreover from True Cons.prems(2) have "[] \<notin> set (sections @ [cur])" by auto
    ultimately show ?thesis by (rule Cons.IH)
  next
    case False
    with Cons.prems e have "manual_loop sb rest sections (cur @ [(p, r)]) = (sections', cur')"
      by auto
    from Cons.IH [OF this Cons.prems(2)] show ?thesis .
  qed
qed

lemma auto_loop_concat:
  "auto_loop m images sections cur sz = (sections', cur') \<Longrightarrow>
   concat sections' @ cur' = concat sections @ cur @ images"
proof (induction images arbitrary: sections cur sz)
  case Nil
  then show ?case by simp
next
  case (Cons e rest)
  obtain p r where e: "e = (p, r)" by (cases e)
  show ?case
  proof (cases "sz + img_size p > of_int m \<and> cur \<noteq> []")
    case True
    with Cons.prems e
    have "auto_loop m rest (sections @ [cur]) [(p, r)] (0 + img_size p) = (sections', cur')"
      by simp
    from Cons.IH [OF this] e show ?thesis by simp
  next
    case False
    with Cons.prems e
    have "auto_loop m rest sections (cur @ [(p, r)]) (sz + img_size p) = (sections', cur')"
      by auto
    from Cons.IH [OF this] e show ?thesis by simp
  qed
qed

lemma auto_loop_nonempty:
  "auto_loop m images sections cur sz = (sections', cur') \<Longrightarrow>
   [] \<notin> set sections \<Longrightarrow> [] \<notin> set sections'"
proof (induction images arbitrary: sections cur sz)
  case Nil
  then show ?case by simp
next
  case (Cons e rest)
  obtain p r where e: "e = (p, r)" by (cases e)
  show ?case
  proof (cases "sz + img_size p > of_int m \<and> cur \<noteq> []")
    case True
    with Cons.prems e
    have "auto_loop m rest (sections @ [cur]) [(p, r)] (0 + img_size p) = (sections', cur')"
      by simp
    moreover from True Cons.prems(2) have "[] \<notin> set (sections @ [cur])" by auto
    ultimately show ?thesis by (rule Cons.IH)
  next
    case False
    with Cons.prems e
    have "auto_loop m rest sections (cur @ [(p, r)]) (sz + img_size p) = (sections', cur')"
      by auto
    from Cons.IH [OF this Cons.prems(2)] show ?thesis .
  qed
qed

lemma manual_split_partition:
  "concat (manual_split sb images) = images \<and> [] \<notin> set (manual_split sb images)"
proof -
  obtain ss cur where l: "manual_loop sb images [] [] = (ss, cur)"
    by (cases "manual_loop sb images [] []")
  from manual_loop_concat [OF l] have c: "concat ss @ cur = images" by simp
  from manual_loop_nonempty [OF l] have n: "[] \<notin> set ss" by simp
  from l c n show ?thesis by (auto simp: manual_split_def)
qed

lemma auto_split_partition:
  "concat (auto_split m images) = images \<and> [] \<notin> set (auto_split m images)"
proof -
  obtain ss cur where l: "auto_loop m images [] [] 0 = (ss, cur)"
    by (cases "auto_loop m images [] [] 0")
  from auto_loop_concat [OF l] have c: "concat ss @ cur = images" by simp
  from auto_loop_nonempty [OF l] have n: "[] \<notin> set ss" by simp
  from l c n show ?thesis by (auto simp: auto_split_def)
qed

text \<open>
  C1. In either mode, and for every sequence of corrected entries (the empty one
  included), the sections returned are all non-empty and their concatenation, in order,
  is the input sequence: nothing is dropped, duplicated or reordered.
\<close>

theorem split_sections_partition:
  "concat (split_sections breaks max_size images) = images
   \<and> [] \<notin> set (split_sections breaks max_size images)
   \<and> concat (manual_split breaks images) = images
   \<and> [] \<notin> set (manual_split breaks images)
   \<and> concat (auto_split max_bytes images) = images
   \<and> [] \<notin> set (auto_split max_bytes images)"
  using manual_split_partition [of breaks images]
    auto_split_partition [of max_bytes images]
    auto_split_partition [of "max_size * 1024 * 1024" images]
  by (simp add: split_sections_def)

section \<open>The correction pipeline\<close>

lemma filter_discards_acc:
  "corrections rv = JObject kvs \<Longrightarrow>
   filter_discards rv ps acc =
     Inr (acc @ map (\<lambda>p. (p, case dict_get kvs (name p) of None \<Rightarrow> JInt 0 | Some v \<Rightarrow> v))
                 (filter (\<lambda>p. JString (name p) \<notin> discards rv) ps))"
  by (induction ps arbitrary: acc) (simp_all add: Let_def)

lemma length_filter_complement:
  "length (filter (\<lambda>x. \<not> P x) xs) = length xs - length (filter P xs)"
  using sum_length_filter_compl [of P xs] by simp

lemma distinct_names_card:
  assumes "distinct (map name ps)"
  shows "length (filter (\<lambda>p. JString (name p) \<in> ds) ps)
         = card (ds \<inter> (\<lambda>p. JString (name p)) ` set ps)"
proof -
  have inj: "inj_on (\<lambda>p. JString (name p)) (set ps)"
    using assms by (auto simp: inj_on_def distinct_map)
  have d: "distinct ps" using assms by (simp add: distinct_map)
  have "length (filter (\<lambda>p. JString (name p) \<in> ds) ps)
        = card {p \<in> set ps. JString (name p) \<in> ds}"
    using d by (simp add: distinct_length_filter Int_def conj_commute)
  also have "\<dots> = card ((\<lambda>p. JString (name p)) ` {p \<in> set ps. JString (name p) \<in> ds})"
    by (rule card_image [symmetric]) (rule inj_on_subset [OF inj], auto)
  also have "(\<lambda>p. JString (name p)) ` {p \<in> set ps. JString (name p) \<in> ds}
             = ds \<inter> (\<lambda>p. JString (name p)) ` set ps"
    by auto
  finally show ?thesis .
qed

text \<open>
  C2. For a review whose rotations are a JSON object, the loop of lines 126-131 returns
  exactly the files whose name is not discarded, in the order of the input, each paired
  with the rotation recorded for its name, or 0 when there is none. The output is as long
  as the input less the discarded occurrences; for a lexicographically (strictly) sorted
  input the output is sorted too, and the number removed is the number of discarded names
  that occur in the input.
\<close>

theorem filter_discards_correct:
  assumes "corrections rv = JObject kvs"
  shows "\<exists>images. filter_discards rv all_images [] = Inr images
     \<and> map fst images = filter (\<lambda>p. JString (name p) \<notin> discards rv) all_images
     \<and> map snd images
         = map (\<lambda>p. case dict_get kvs (name p) of None \<Rightarrow> JInt 0 | Some v \<Rightarrow> v) (map fst images)
     \<and> length images
         = length all_images - length (filter (\<lambda>p. JString (name p) \<in> discards rv) all_images)
     \<and> (sorted_wrt (<) (map name all_images) \<longrightarrow>
          sorted_wrt (<) (map (name \<circ> fst) images)
          \<and> length images
              = length all_images - card (discards rv \<inter> (\<lambda>p. JString (name p)) ` set all_images))"
proof -
  let ?keep = "filter (\<lambda>p. JString (name p) \<notin> discards rv) all_images"
  let ?rot = "\<lambda>p. case dict_get kvs (name p) of None \<Rightarrow> JInt 0 | Some v \<Rightarrow> v"
  let ?images = "map (\<lambda>p. (p, ?rot p)) ?keep"
  have run: "filter_discards rv all_images [] = Inr ?images"
    using filter_discards_acc [OF assms, of all_images "[]"] by simp
  have fst: "map fst ?images = ?keep" by (simp add: comp_def)
  have snd: "map snd ?images = map ?rot (map fst ?images)" by (simp add: comp_def)
  have len: "length ?images
             = length all_images - length (filter (\<lambda>p. JString (name p) \<in> discards rv) all_images)"
    using length_filter_complement [of "\<lambda>p. JString (name p) \<in> discards rv" all_images] by simp
  have srt: "sorted_wrt (<) (map (name \<circ> fst) ?images)
             \<and> length ?images
                = length all_images - card (discards rv \<inter> (\<lambda>p. JString (name p)) ` set all_images)"
    if s: "sorted_wrt (<) (map name all_images)"
  proof
    have "sorted_wrt (<) (map name ?keep)"
      using s by (simp add: sorted_wrt_map sorted_wrt_filter)
    then show "sorted_wrt (<) (map (name \<circ> fst) ?images)" by (simp add: comp_def)
    have "distinct (map name all_images)" using s by (simp add: strict_sorted_iff)
    from distinct_names_card [OF this, of "discards rv"] len
    show "length ?images
          = length all_images - card (discards rv \<inter> (\<lambda>p. JString (name p)) ` set all_images)"
      by simp
  qed
  from run fst snd len srt show ?thesis by blast
qed


theorem filter_discards_correct_witness:
  "corrections \<lparr>corrections = JObject [(''a.jpg'', JInt 90)], section_breaks = {JString ''c.jpg''},
                discards = {JString ''b.jpg''}\<rparr> = JObject [(''a.jpg'', JInt 90)]
   \<and> sorted_wrt (<) (map name [\<lparr>name = ''a.jpg'', st_size = 10\<rparr>, \<lparr>name = ''b.jpg'', st_size = 20\<rparr>,
         \<lparr>name = ''c.jpg'', st_size = 30\<rparr>, \<lparr>name = ''d.jpg'', st_size = 40\<rparr>])
   \<and> filter_discards \<lparr>corrections = JObject [(''a.jpg'', JInt 90)], section_breaks = {JString ''c.jpg''},
                discards = {JString ''b.jpg''}\<rparr>
         [\<lparr>name = ''a.jpg'', st_size = 10\<rparr>, \<lparr>name = ''b.jpg'', st_size = 20\<rparr>,
          \<lparr>name = ''c.jpg'', st_size = 30\<rparr>, \<lparr>name = ''d.jpg'', st_size = 40\<rparr>] []
       = Inr [(\<lparr>name = ''a.jpg'', st_size = 10\<rparr>, JInt 90), (\<lparr>name = ''c.jpg'', st_size = 30\<rparr>, JInt 0),
              (\<lparr>name = ''d.jpg'', st_size = 40\<rparr>, JInt 0)]"
  using filter_discards_correct
    [of "\<lparr>corrections = JObject [(''a.jpg'', JInt 90)], section_breaks = {JString ''c.jpg''},
          discards = {JString ''b.jpg''}\<rparr>" "[(''a.jpg'', JInt 90)]"
        "[\<lparr>name = ''a.jpg'', st_size = 10\<rparr>, \<lparr>name = ''b.jpg'', st_size = 20\<rparr>,
          \<lparr>name = ''c.jpg'', st_size = 30\<rparr>, \<lparr>name = ''d.jpg'', st_size = 40\<rparr>]"]
  by (simp add: dict_get_def)

section \<open>Manual sections\<close>

lemma manual_loop_count:
  "cur \<noteq> [] \<Longrightarrow> manual_loop sb images sections cur = (sections', cur') \<Longrightarrow>
   cur' \<noteq> [] \<and>
   length sections' = length sections + length (filter (\<lambda>e. JString (name (fst e)) \<in> sb) images)"
proof (induction images arbitrary: sections cur)
  case Nil
  then show ?case by simp
next
  case (Cons e rest)
  obtain p r where e: "e = (p, r)" by (cases e)
  show ?case
  proof (cases "JString (name p) \<in> sb")
    case True
    with Cons.prems e have "manual_loop sb rest (sections @ [cur]) [(p, r)] = (sections', cur')"
      by simp
    from Cons.IH [OF _ this] True e show ?thesis by simp
  next
    case False
    with Cons.prems e have "manual_loop sb rest sections (cur @ [(p, r)]) = (sections', cur')"
      by simp
    from Cons.IH [OF _ this] False e show ?thesis by simp
  qed
qed

lemma manual_split_length:
  "length (manual_split sb (e # rest))
     = 1 + length (filter (\<lambda>e. JString (name (fst e)) \<in> sb) rest)"
proof -
  obtain p r where e: "e = (p, r)" by (cases e)
  obtain ss cur where l: "manual_loop sb rest [] [e] = (ss, cur)"
    by (cases "manual_loop sb rest [] [e]")
  from manual_loop_count [OF _ l]
  have c: "cur \<noteq> []" "length ss = length (filter (\<lambda>e. JString (name (fst e)) \<in> sb) rest)"
    by simp_all
  from l e have "manual_split sb (e # rest) = ss @ [cur]"
    using c(1) by (simp add: manual_split_def)
  with l c show ?thesis by simp
qed

text \<open>
  Every entry after the first of a section is no section break, and every section after
  the first begins with one.
\<close>

lemma manual_loop_shape:
  "manual_loop sb images sections cur = (sections', cur') \<Longrightarrow>
   (\<forall>s \<in> set (sections @ [cur]). \<forall>e \<in> set (tl s). JString (name (fst e)) \<notin> sb) \<Longrightarrow>
   (\<forall>s \<in> set (tl (sections @ [cur])). s \<noteq> [] \<and> JString (name (fst (hd s))) \<in> sb) \<Longrightarrow>
   (\<forall>s \<in> set (sections' @ [cur']). \<forall>e \<in> set (tl s). JString (name (fst e)) \<notin> sb) \<and>
   (\<forall>s \<in> set (tl (sections' @ [cur'])). s \<noteq> [] \<and> JString (name (fst (hd s))) \<in> sb)"
proof (induction images arbitrary: sections cur)
  case Nil
  then show ?case by simp
next
  case (Cons e rest)
  obtain p r where e: "e = (p, r)" by (cases e)
  show ?case
  proof (cases "JString (name p) \<in> sb \<and> cur \<noteq> []")
    case True
    with Cons.prems(1) e
    have l: "manual_loop sb rest (sections @ [cur]) [(p, r)] = (sections', cur')"
      by simp
    have a: "\<forall>s \<in> set ((sections @ [cur]) @ [[(p, r)]]). \<forall>e \<in> set (tl s). JString (name (fst e)) \<notin> sb"
      using Cons.prems(2) by auto
    have b: "\<forall>s \<in> set (tl ((sections @ [cur]) @ [[(p, r)]])). s \<noteq> [] \<and> JString (name (fst (hd s))) \<in> sb"
      using Cons.prems(3) True by (cases sections) auto
    from Cons.IH [OF l a b] show ?thesis .
  next
    case False
    with Cons.prems(1) e
    have l: "manual_loop sb rest sections (cur @ [(p, r)]) = (sections', cur')"
      by auto
    have a: "\<forall>s \<in> set (sections @ [cur @ [(p, r)]]). \<forall>e \<in> set (tl s). JString (name (fst e)) \<notin> sb"
    proof (cases cur)
      case Nil
      with Cons.prems(2) show ?thesis by auto
    next
      case (Cons c cs)
      with False have "JString (name p) \<notin> sb" by simp
      with Cons.prems(2) Cons show ?thesis by auto
    qed
    have b: "\<forall>s \<in> set (tl (sections @ [cur @ [(p, r)]])). s \<noteq> [] \<and> JString (name (fst (hd s))) \<in> sb"
      using Cons.prems(3) by (cases sections) auto
    from Cons.IH [OF l a b] show ?thesis .
  qed
qed

lemma manual_split_shape:
  "(\<forall>s \<in> set (manual_split sb images). \<forall>e \<in> set (tl s). JString (name (fst e)) \<notin> sb) \<and>
   (\<forall>s \<in> set (tl (manual_split sb images)). JString (name (fst (hd s))) \<in> sb)"
proof -
  obtain ss cur where l: "manual_loop sb images [] [] = (ss, cur)"
    by (cases "manual_loop sb images [] []")
  from manual_loop_shape [OF l]
  have s: "(\<forall>s \<in> set (ss @ [cur]). \<forall>e \<in> set (tl s). JString (name (fst e)) \<notin> sb)"
          "(\<forall>s \<in> set (tl (ss @ [cur])). s \<noteq> [] \<and> JString (name (fst (hd s))) \<in> sb)"
    by simp_all
  show ?thesis
  proof (cases "cur = []")
    case True
    have "\<forall>s \<in> set (tl ss). JString (name (fst (hd s))) \<in> sb"
      using s(2) by (cases ss) auto
    with s(1) l True show ?thesis by (simp add: manual_split_def)
  next
    case False
    with s l show ?thesis by (simp add: manual_split_def)
  qed
qed

lemma break_names_card:
  assumes "distinct (map (name \<circ> fst) (e # rest))"
  shows "length (filter (\<lambda>e. JString (name (fst e)) \<in> sb) rest)
         = card {b \<in> sb. b \<in> (\<lambda>e. JString (name (fst e))) ` set (e # rest)
                        \<and> b \<noteq> JString (name (fst e))}"
proof -
  have inj: "inj_on (\<lambda>e. JString (name (fst e))) (set rest)"
    using assms by (auto simp: inj_on_def distinct_map)
  have d: "distinct rest" using assms by (simp add: distinct_map)
  have notin: "\<forall>x \<in> set rest. name (fst x) \<noteq> name (fst e)"
    using assms by (auto simp: image_iff)
  have "length (filter (\<lambda>e. JString (name (fst e)) \<in> sb) rest)
        = card {x \<in> set rest. JString (name (fst x)) \<in> sb}"
    using d by (simp add: distinct_length_filter Int_def conj_commute)
  also have "\<dots> = card ((\<lambda>e. JString (name (fst e))) ` {x \<in> set rest. JString (name (fst x)) \<in> sb})"
    by (rule card_image [symmetric]) (rule inj_on_subset [OF inj], auto)
  also have "(\<lambda>e. JString (name (fst e))) ` {x \<in> set rest. JString (name (fst x)) \<in> sb}
             = {b \<in> sb. b \<in> (\<lambda>e. JString (name (fst e))) ` set (e # rest)
                        \<and> b \<noteq> JString (name (fst e))}"
    using notin by (auto simp: image_iff)
  finally show ?thesis .
qed

text \<open>
  C4. For a non-empty corrected sequence (of distinct file names) and a non-empty set of
  section breaks, the manual mode is taken and returns 1 + k sections, where k is the
  number of section breaks that name an entry of the corrected sequence other than its
  first. Every section after the first begins with a section break, and no other entry
  of any section is one: the marked entry opens the next section.
\<close>

theorem manual_section_count:
  assumes "images \<noteq> []" and "breaks \<noteq> {}" and "distinct (map (name \<circ> fst) images)"
  shows "split_sections breaks max_size images = manual_split breaks images
    \<and> length (split_sections breaks max_size images)
        = 1 + card {b \<in> breaks. b \<in> (\<lambda>e. JString (name (fst e))) ` set images
                              \<and> b \<noteq> JString (name (fst (hd images)))}
    \<and> (\<forall>s \<in> set (tl (split_sections breaks max_size images)). JString (name (fst (hd s))) \<in> breaks)
    \<and> (\<forall>s \<in> set (split_sections breaks max_size images).
          \<forall>e \<in> set (tl s). JString (name (fst e)) \<notin> breaks)"
proof -
  from assms(1) obtain e rest where i: "images = e # rest" by (cases images) auto
  have m: "split_sections breaks max_size images = manual_split breaks images"
    using assms(2) by (simp add: split_sections_def)
  have "length (manual_split breaks images)
        = 1 + length (filter (\<lambda>e. JString (name (fst e)) \<in> breaks) rest)"
    using manual_split_length [of breaks e rest] i by simp
  also have "length (filter (\<lambda>e. JString (name (fst e)) \<in> breaks) rest)
        = card {b \<in> breaks. b \<in> (\<lambda>e. JString (name (fst e))) ` set images
                              \<and> b \<noteq> JString (name (fst (hd images)))}"
    using break_names_card [of e rest breaks] assms(3) i by simp
  finally have c: "length (manual_split breaks images)
        = 1 + card {b \<in> breaks. b \<in> (\<lambda>e. JString (name (fst e))) ` set images
                              \<and> b \<noteq> JString (name (fst (hd images)))}" .
  from m c manual_split_shape [of breaks images] show ?thesis by simp
qed


theorem manual_section_count_witness:
  "[(\<lparr>name = ''a.jpg'', st_size = 10\<rparr>, JInt 90), (\<lparr>name = ''c.jpg'', st_size = 30\<rparr>, JInt 0),
    (\<lparr>name = ''d.jpg'', st_size = 40\<rparr>, JInt 0)] \<noteq> []
   \<and> {JString ''c.jpg'', JString ''b.jpg''} \<noteq> {}
   \<and> distinct (map (name \<circ> fst)
        [(\<lparr>name = ''a.jpg'', st_size = 10\<rparr>, JInt 90), (\<lparr>name = ''c.jpg'', st_size = 30\<rparr>, JInt 0),
         (\<lparr>name = ''d.jpg'', st_size = 40\<rparr>, JInt 0)])
   \<and> split_sections {JString ''c.jpg'', JString ''b.jpg''} 200
        [(\<lparr>name = ''a.jpg'', st_size = 10\<rparr>, JInt 90), (\<lparr>name = ''c.jpg'', st_size = 30\<rparr>, JInt 0),
         (\<lparr>name = ''d.jpg'', st_size = 40\<rparr>, JInt 0)]
       = [[(\<lparr>name = ''a.jpg'', st_size = 10\<rparr>, JInt 90)],
          [(\<lparr>name = ''c.jpg'', st_size = 30\<rparr>, JInt 0), (\<lparr>name = ''d.jpg'', st_size = 40\<rparr>, JInt 0)]]"
  using manual_section_count
    [of "[(\<lparr>name = ''a.jpg'', st_size = 10\<rparr>, JInt 90), (\<lparr>name = ''c.jpg'', st_size = 30\<rparr>, JInt 0),
          (\<lparr>name = ''d.jpg'', st_size = 40\<rparr>, JInt 0)]" "{JString ''c.jpg'', JString ''b.jpg''}" 200]
  by (simp add: manual_split_def)

section \<open>Automatic sections\<close>





section \<open>A bound of zero or less\<close>

lemma img_size_nonneg: "0 \<le> img_size p"
  by (simp add: img_size_def)

lemma img_size_zero: "img_size p = 0 \<longleftrightarrow> st_size p = 0"
  by (simp add: img_size_def)

lemma auto_loop_singletons:
  "m < 0 \<or> (m = 0 \<and> \<not> adjacent_empty (prev # images)) \<Longrightarrow>
   auto_loop m images sections [prev] (img_size (fst prev))
   = (sections @ map (\<lambda>e. [e]) (butlast (prev # images)), [last (prev # images)])"
proof (induction images arbitrary: sections prev)
  case Nil
  then show ?case by simp
next
  case (Cons e rest)
  obtain p r where e: "e = (p, r)" by (cases e)
  have pos: "img_size (fst prev) + img_size p > of_int m"
  proof (cases "m < 0")
    case True
    then have "(of_int m :: rat) < 0" by simp
    with img_size_nonneg [of "fst prev"] img_size_nonneg [of p] show ?thesis by linarith
  next
    case False
    with Cons.prems e have m: "m = 0" and "st_size (fst prev) \<noteq> 0 \<or> st_size p \<noteq> 0"
      by auto
    then have "img_size (fst prev) \<noteq> 0 \<or> img_size p \<noteq> 0"
      by (simp add: img_size_zero)
    with img_size_nonneg [of "fst prev"] img_size_nonneg [of p] m show ?thesis
      by (auto simp: less_le add_nonneg_eq_0_iff)
  qed
  have next_ok: "m < 0 \<or> (m = 0 \<and> \<not> adjacent_empty (e # rest))"
    using Cons.prems by auto
  have "auto_loop m (e # rest) sections [prev] (img_size (fst prev))
        = auto_loop m rest (sections @ [[prev]]) [e] (img_size (fst e))"
    using pos e by simp
  also have "\<dots> = ((sections @ [[prev]]) @ map (\<lambda>e. [e]) (butlast (e # rest)), [last (e # rest)])"
    by (rule Cons.IH [OF next_ok])
  finally show ?case by simp
qed

text \<open>
  C7, as the code has it. With a negative \<open>max_bytes\<close>, or with \<open>max_bytes = 0\<close> and no two
  neighbouring entries that are both empty files, the automatic mode returns one
  singleton section per entry.
\<close>

theorem auto_split_nonpositive:
  assumes "max_bytes < 0 \<or> (max_bytes = 0 \<and> \<not> adjacent_empty images)"
  shows "auto_split max_bytes images = map (\<lambda>e. [e]) images"
proof (cases images)
  case Nil
  then show ?thesis by (simp add: auto_split_def)
next
  case (Cons e rest)
  obtain p r where e: "e = (p, r)" by (cases e)
  have "auto_loop max_bytes (e # rest) [] [] 0 = auto_loop max_bytes rest [] [e] (img_size (fst e))"
    using e by simp
  also have "\<dots> = ([] @ map (\<lambda>e. [e]) (butlast (e # rest)), [last (e # rest)])"
    by (rule auto_loop_singletons) (use assms Cons in simp)
  finally have "auto_split max_bytes (e # rest)
                = map (\<lambda>e. [e]) (butlast (e # rest)) @ [[last (e # rest)]]"
    by (simp add: auto_split_def)
  also have "\<dots> = map (\<lambda>e. [e]) (butlast (e # rest) @ [last (e # rest)])"
    by simp
  also have "butlast (e # rest) @ [last (e # rest)] = e # rest"
    by (rule append_butlast_last_id) simp
  finally show ?thesis using Cons by simp
qed

theorem auto_split_nonpositive_witness:
  "((0::int) < 0 \<or> ((0::int) = 0 \<and> \<not> adjacent_empty
      [(\<lparr>name = ''a.jpg'', st_size = 0\<rparr>, JInt 0), (\<lparr>name = ''b.jpg'', st_size = 7\<rparr>, JInt 0),
       (\<lparr>name = ''c.jpg'', st_size = 0\<rparr>, JInt 0)]))
   \<and> auto_split 0
      [(\<lparr>name = ''a.jpg'', st_size = 0\<rparr>, JInt 0), (\<lparr>name = ''b.jpg'', st_size = 7\<rparr>, JInt 0),
       (\<lparr>name = ''c.jpg'', st_size = 0\<rparr>, JInt 0)]
     = [[(\<lparr>name = ''a.jpg'', st_size = 0\<rparr>, JInt 0)], [(\<lparr>name = ''b.jpg'', st_size = 7\<rparr>, JInt 0)],
        [(\<lparr>name = ''c.jpg'', st_size = 0\<rparr>, JInt 0)]]"
  using auto_split_nonpositive [of 0
      "[(\<lparr>name = ''a.jpg'', st_size = 0\<rparr>, JInt 0), (\<lparr>name = ''b.jpg'', st_size = 7\<rparr>, JInt 0),
       (\<lparr>name = ''c.jpg'', st_size = 0\<rparr>, JInt 0)]"]
  by simp

text \<open>
  C7 as stated fails: with \<open>max_bytes = 0\<close>, two empty files end up in one section, since
  \<open>0 + 0 > 0\<close> is false.
\<close>

theorem auto_split_zero_counterexample:
  "(0::int) \<le> 0
   \<and> auto_split 0 [(\<lparr>name = ''a.jpg'', st_size = 0\<rparr>, JInt 0), (\<lparr>name = ''b.jpg'', st_size = 0\<rparr>, JInt 0)]
     = [[(\<lparr>name = ''a.jpg'', st_size = 0\<rparr>, JInt 0), (\<lparr>name = ''b.jpg'', st_size = 0\<rparr>, JInt 0)]]
   \<and> auto_split 0 [(\<lparr>name = ''a.jpg'', st_size = 0\<rparr>, JInt 0), (\<lparr>name = ''b.jpg'', st_size = 0\<rparr>, JInt 0)]
     \<noteq> [[(\<lparr>name = ''a.jpg'', st_size = 0\<rparr>, JInt 0)], [(\<lparr>name = ''b.jpg'', st_size = 0\<rparr>, JInt 0)]]"
  by (simp add: auto_split_def img_size_def)

section \<open>The rotation mapping\<close>

lemma transpose_pil_ccw: "quarter_turn_ccw img (transpose_pil img PIL_ROTATE_90)"
  by (simp add: quarter_turn_ccw_def)

lemma transpose_pil_cw: "quarter_turn_cw img (transpose_pil img PIL_ROTATE_270)"
  by (simp add: quarter_turn_cw_def)

lemma transpose_pil_half: "half_turn img (transpose_pil img PIL_ROTATE_180)"
  by (simp add: half_turn_def)

lemma rectangular_row:
  "rectangular img \<Longrightarrow> i < length img \<Longrightarrow> length (img ! i) = img_width img"
  by (simp add: rectangular_def)

lemma transpose_rectangular:
  assumes "rectangular img"
  shows "transpose img
         = map (\<lambda>i. map (\<lambda>j. img ! j ! i) [0..<img_height img]) [0..<img_width img]"
  unfolding img_height_def
proof (rule transpose_rectangle)
  show "img = [] \<Longrightarrow> img_width img = 0" by (simp add: img_width_def)
  show "\<And>i. i < length img \<Longrightarrow> length (img ! i) = img_width img"
    using assms by (rule rectangular_row)
qed

lemma rev_map_upt: "rev (map f [0..<n]) = map (\<lambda>i. f (n - 1 - i)) [0..<n]"
  by (rule nth_equalityI) (simp_all add: rev_nth)

lemma cv2_rotate_ccw:
  "rectangular img \<Longrightarrow> cv2_rotate img ROTATE_90_COUNTERCLOCKWISE = transpose_pil img PIL_ROTATE_90"
  by (simp add: transpose_rectangular rev_map_upt)

lemma cv2_rotate_cw:
  "rectangular img \<Longrightarrow> cv2_rotate img ROTATE_90_CLOCKWISE = transpose_pil img PIL_ROTATE_270"
  by (simp add: transpose_rectangular rev_map_upt comp_def)

lemma cv2_rotate_half:
  assumes "rectangular img"
  shows "cv2_rotate img ROTATE_180 = transpose_pil img PIL_ROTATE_180"
proof -
  have "rev (map rev img)
        = map (\<lambda>r. map (\<lambda>c. img ! (img_height img - 1 - r) ! (img_width img - 1 - c))
                 [0..<img_width img]) [0..<img_height img]"
  proof (rule nth_equalityI)
    show "length (rev (map rev img))
          = length (map (\<lambda>r. map (\<lambda>c. img ! (img_height img - 1 - r) ! (img_width img - 1 - c))
                 [0..<img_width img]) [0..<img_height img])"
      by (simp add: img_height_def)
  next
    fix r
    assume "r < length (rev (map rev img))"
    then have r: "r < length img" by simp
    then have k: "length img - 1 - r < length img" by simp
    have "rev (map rev img) ! r = rev (img ! (length img - 1 - r))"
      using r by (simp add: rev_nth)
    also have "\<dots> = map (\<lambda>c. img ! (length img - 1 - r) ! (img_width img - 1 - c))
                        [0..<img_width img]"
    proof -
      define row where "row = img ! (length img - 1 - r)"
      have len: "length row = img_width img"
        unfolding row_def by (rule rectangular_row [OF assms k])
      have "rev row = map (\<lambda>c. row ! (img_width img - 1 - c)) [0..<img_width img]"
        by (rule nth_equalityI) (simp_all add: len rev_nth)
      then show ?thesis by (simp add: row_def)
    qed
    finally show "rev (map rev img) ! r
          = map (\<lambda>r. map (\<lambda>c. img ! (img_height img - 1 - r) ! (img_width img - 1 - c))
                 [0..<img_width img]) [0..<img_height img] ! r"
      using r by (simp add: img_height_def)
  qed
  then show ?thesis by simp
qed

text \<open>
  C3. For every (rectangular) image and every integer angle, \<^verbatim>\<open>rotate_image\<close> of
  apply_corrections.py, \<^verbatim>\<open>rotate_image\<close> of create_pdfs.py and the guarded call of
  the latter in \<^verbatim>\<open>create_pdf\<close> turn the image a quarter counter-clockwise for 90, by a
  half turn for 180, a quarter clockwise for 270, and return it unchanged for every other
  angle, 0 included.
\<close>

theorem rotate_image_mapping:
  assumes "rectangular img"
  shows "quarter_turn_ccw img (rotate_image_cv2 img (JInt 90))
       \<and> half_turn img (rotate_image_cv2 img (JInt 180))
       \<and> quarter_turn_cw img (rotate_image_cv2 img (JInt 270))
       \<and> (a \<notin> {90, 180, 270} \<longrightarrow> rotate_image_cv2 img (JInt a) = img)
       \<and> quarter_turn_ccw img (rotate_image img (JInt 90))
       \<and> half_turn img (rotate_image img (JInt 180))
       \<and> quarter_turn_cw img (rotate_image img (JInt 270))
       \<and> (a \<notin> {90, 180, 270} \<longrightarrow> rotate_image img (JInt a) = img)
       \<and> (if truthy (JInt a) then rotate_image img (JInt a) else img) = rotate_image img (JInt a)
       \<and> rotate_image_cv2 img (JInt a) = rotate_image img (JInt a)"
proof -
  have cv: "rotate_image_cv2 img (JInt a) = rotate_image img (JInt a)" for a
    using assms
    by (simp add: rotate_image_cv2_def rotate_image_def cv2_rotate_ccw cv2_rotate_cw
          cv2_rotate_half del: cv2_rotate.simps transpose_pil.simps)
  have p90: "quarter_turn_ccw img (rotate_image img (JInt 90))"
    using transpose_pil_ccw [of img] by (simp add: rotate_image_def del: transpose_pil.simps)
  have p180: "half_turn img (rotate_image img (JInt 180))"
    using transpose_pil_half [of img] by (simp add: rotate_image_def del: transpose_pil.simps)
  have p270: "quarter_turn_cw img (rotate_image img (JInt 270))"
    using transpose_pil_cw [of img] by (simp add: rotate_image_def del: transpose_pil.simps)
  have other: "a \<notin> {90, 180, 270} \<longrightarrow> rotate_image img (JInt a) = img"
    by (simp add: rotate_image_def)
  have guard: "(if truthy (JInt a) then rotate_image img (JInt a) else img)
               = rotate_image img (JInt a)"
    by (simp add: rotate_image_def)
  from cv p90 p180 p270 other guard show ?thesis by simp
qed

theorem rotate_image_mapping_witness:
  "rectangular [[1, 2, 3], [4, 5, 6 :: nat]]
   \<and> rotate_image_cv2 [[1, 2, 3], [4, 5, 6 :: nat]] (JInt 90) = [[3, 6], [2, 5], [1, 4]]
   \<and> rotate_image [[1, 2, 3], [4, 5, 6 :: nat]] (JInt 90) = [[3, 6], [2, 5], [1, 4]]
   \<and> quarter_turn_ccw [[1, 2, 3], [4, 5, 6 :: nat]] (rotate_image_cv2 [[1, 2, 3], [4, 5, 6]] (JInt 90))
   \<and> half_turn [[1, 2, 3], [4, 5, 6 :: nat]] (rotate_image_cv2 [[1, 2, 3], [4, 5, 6]] (JInt 180))
   \<and> quarter_turn_cw [[1, 2, 3], [4, 5, 6 :: nat]] (rotate_image [[1, 2, 3], [4, 5, 6]] (JInt 270))
   \<and> (0::int) \<notin> {90, 180, 270}
   \<and> rotate_image_cv2 [[1, 2, 3], [4, 5, 6 :: nat]] (JInt 0) = [[1, 2, 3], [4, 5, 6]]
   \<and> rotate_image [[1, 2, 3], [4, 5, 6 :: nat]] (JInt 0) = [[1, 2, 3], [4, 5, 6]]"
proof -
  have r: "rectangular [[1, 2, 3], [4, 5, 6 :: nat]]"
    by (simp add: rectangular_def img_width_def)
  have e1: "rotate_image_cv2 [[1, 2, 3], [4, 5, 6 :: nat]] (JInt 90) = [[3, 6], [2, 5], [1, 4]]"
    by code_simp
  have e2: "rotate_image [[1, 2, 3], [4, 5, 6 :: nat]] (JInt 90) = [[3, 6], [2, 5], [1, 4]]"
    by code_simp
  from rotate_image_mapping [OF r, of 0] r e1 e2 show ?thesis by simp
qed

section \<open>The archive writer\<close>

lemma load_loop_result:
  "first = None \<longrightarrow> images = [] \<Longrightarrow>
   load_loop opener data first images warns = (first', images', warns') \<Longrightarrow>
   (case first' of None \<Rightarrow> [] | Some f \<Rightarrow> f # images')
     = (case first of None \<Rightarrow> [] | Some f \<Rightarrow> f # images)
       @ map (\<lambda>(p, rot). if truthy rot then rotate_image (the (opener p)) rot else the (opener p))
           (filter (\<lambda>(p, rot). opener p \<noteq> None) data)
   \<and> (first' = None \<longrightarrow> images' = [])
   \<and> warns' = warns @ map (\<lambda>(p, rot). name p) (filter (\<lambda>(p, rot). opener p = None) data)"
proof (induction data arbitrary: first images warns)
  case Nil
  then show ?case by auto
next
  case (Cons e rest)
  obtain p rot where e: "e = (p, rot)" by (cases e)
  show ?case
  proof (cases "opener p")
    case None
    with Cons.prems(2) e
    have l: "load_loop opener rest first images (warns @ [name p]) = (first', images', warns')"
      by simp
    from Cons.IH [OF Cons.prems(1) l] None e show ?thesis by simp
  next
    case (Some img0)
    let ?img = "if truthy rot then rotate_image img0 rot else img0"
    show ?thesis
    proof (cases first)
      case None
      with Cons.prems(2) e Some
      have l: "load_loop opener rest (Some ?img) images warns = (first', images', warns')"
        by (simp add: Let_def)
      have i: "Some ?img = None \<longrightarrow> images = []" by simp
      from None Cons.prems(1) have "images = []" by simp
      with Cons.IH [OF i l] Some None e show ?thesis by simp
    next
      case (Some f)
      with Cons.prems(2) e \<open>opener p = Some img0\<close>
      have l: "load_loop opener rest first (images @ [?img]) warns = (first', images', warns')"
        by (simp add: Let_def)
      have i: "first = None \<longrightarrow> images @ [?img] = []" using Some by simp
      from Cons.IH [OF i l] Some \<open>opener p = Some img0\<close> e show ?thesis by simp
    qed
  qed
qed

text \<open>
  C8. For every section, \<^verbatim>\<open>create_pdf\<close> opens every entry; an entry that fails to decode
  is skipped with a warning and the others become the pages, in section order. When no
  entry decodes, it returns 0 and saves nothing. Otherwise it saves the pages and returns
  how many entries decoded; the only other outcome is the exception of \<^verbatim>\<open>save\<close> itself,
  which \<^verbatim>\<open>create_pdf\<close> does not catch.
\<close>

theorem create_pdf_result:
  "create_pdf opener saver section =
     (let decoded = filter (\<lambda>(p, rot). opener p \<noteq> None) section;
          pages = map (\<lambda>(p, rot). if truthy rot then rotate_image (the (opener p)) rot
                                   else the (opener p)) decoded;
          failed = map (\<lambda>(p, rot). name p) (filter (\<lambda>(p, rot). opener p = None) section)
      in if decoded = [] then Inr \<lparr>page_count = 0, document = None, warnings = failed\<rparr>
         else if saver pages
              then Inr \<lparr>page_count = length decoded, document = Some pages, warnings = failed\<rparr>
              else Inl OSError)"
proof (cases "section = []")
  case True
  then show ?thesis by (simp add: create_pdf_def)
next
  case False
  let ?decoded = "filter (\<lambda>(p, rot). opener p \<noteq> None) section"
  let ?pages = "map (\<lambda>(p, rot). if truthy rot then rotate_image (the (opener p)) rot
                                   else the (opener p)) ?decoded"
  let ?failed = "map (\<lambda>(p, rot). name p) (filter (\<lambda>(p, rot). opener p = None) section)"
  obtain first images warns
    where l: "load_loop opener section None [] [] = (first, images, warns)"
    by (cases "load_loop opener section None [] []")
  from load_loop_result [OF _ l]
  have r: "(case first of None \<Rightarrow> [] | Some f \<Rightarrow> f # images) = ?pages"
    and w: "warns = ?failed"
    by simp_all
  show ?thesis
  proof (cases first)
    case None
    with r have "?decoded = []" by simp
    with None l w False show ?thesis by (simp add: create_pdf_def)
  next
    case (Some f)
    with r have p: "f # images = ?pages" by simp
    then have ne: "?decoded \<noteq> []" by auto
    have "length (f # images) = length ?pages" by (rule arg_cong [OF p])
    then have len: "length images + 1 = length ?decoded" by simp
    from Some l w False ne len p [symmetric] show ?thesis
      by (simp add: create_pdf_def Let_def)
  qed
qed

theorem create_pdf_result_witness:
  "create_pdf (\<lambda>p. if name p = ''b.jpg'' then None else Some [[st_size p]]) (\<lambda>pages. True)
     [(\<lparr>name = ''a.jpg'', st_size = 1\<rparr>, JInt 0), (\<lparr>name = ''b.jpg'', st_size = 2\<rparr>, JInt 90),
      (\<lparr>name = ''c.jpg'', st_size = 3\<rparr>, JInt 180)]
   = Inr \<lparr>page_count = 2, document = Some [[[1]], [[3]]], warnings = [''b.jpg'']\<rparr>
   \<and> create_pdf (\<lambda>p. None :: nat image option) (\<lambda>pages. True)
     [(\<lparr>name = ''a.jpg'', st_size = 1\<rparr>, JInt 0), (\<lparr>name = ''b.jpg'', st_size = 2\<rparr>, JInt 90)]
   = Inr \<lparr>page_count = 0, document = None, warnings = [''a.jpg'', ''b.jpg'']\<rparr>"
  using create_pdf_result [of "\<lambda>p. if name p = ''b.jpg'' then None else Some [[st_size p]]"
      "\<lambda>pages. True"
      "[(\<lparr>name = ''a.jpg'', st_size = 1\<rparr>, JInt 0), (\<lparr>name = ''b.jpg'', st_size = 2\<rparr>, JInt 90),
        (\<lparr>name = ''c.jpg'', st_size = 3\<rparr>, JInt 180)]"]
    create_pdf_result [of "\<lambda>p. None :: nat image option" "\<lambda>pages. True"
      "[(\<lparr>name = ''a.jpg'', st_size = 1\<rparr>, JInt 0), (\<lparr>name = ''b.jpg'', st_size = 2\<rparr>, JInt 90)]"]
  by (simp add: rotate_image_def img_width_def img_height_def)

section \<open>The counters of the rotation workflow\<close>

text \<open>The outcomes of one pass of the loop body.\<close>

lemma apply_body_cases:
  "(\<exists>e. apply_body env corrs cu p st = Inl e)
   \<or> apply_body env corrs cu p st = Inr (st\<lparr>errors := errors st + 1\<rparr>)
   \<or> (\<exists>w. apply_body env corrs cu p st = Inr (st\<lparr>rotated := rotated st + 1, written := w\<rparr>))
   \<or> apply_body env corrs cu p st
       = Inr (st\<lparr>copied := copied st + 1, copies := copies st @ [name p]\<rparr>)
   \<or> apply_body env corrs cu p st = Inr (st\<lparr>skipped := skipped st + 1\<rparr>)"
proof (cases "py_contains corrs (name p)")
  case (Inl e)
  then show ?thesis by (simp add: apply_body_def Let_def)
next
  case (Inr present)
  show ?thesis
  proof (cases present)
    case False
    with Inr show ?thesis
      by (cases cu; cases "copy2 env (name p)"; simp add: apply_body_def Let_def)
  next
    case True
    show ?thesis
    proof (cases "py_getitem corrs (name p)")
      case (Inl e)
      with Inr True show ?thesis by (simp add: apply_body_def Let_def)
    next
      case angle: (Inr angle)
      show ?thesis
      proof (cases "imread env (name p)")
        case Raised
        with Inr True angle show ?thesis by (simp add: apply_body_def Let_def)
      next
        case (Returned res)
        show ?thesis
        proof (cases res)
          case None
          with Inr True angle Returned show ?thesis by (simp add: apply_body_def Let_def)
        next
          case (Some img)
          show ?thesis
          proof (cases "imwrite env (name p) (rotate_image_cv2 img angle)")
            case Raised
            with Inr True angle Returned Some show ?thesis
              by (simp add: apply_body_def Let_def)
          next
            case ok: (Returned ok)
            with Inr True angle Returned Some
            have "apply_body env corrs cu p st
                  = Inr (st\<lparr>rotated := rotated st + 1,
                             written := (if ok then written st @ [(name p, rotate_image_cv2 img angle)]
                                         else written st)\<rparr>)"
              by (simp add: apply_body_def Let_def)
            then show ?thesis by blast
          qed
        qed
      qed
    qed
  qed
qed

lemma apply_body_one:
  assumes "apply_body env corrs cu p st = Inr st1"
  shows "(rotated st1 = rotated st + 1 \<and> copied st1 = copied st \<and> skipped st1 = skipped st
            \<and> errors st1 = errors st)
         \<or> (rotated st1 = rotated st \<and> copied st1 = copied st + 1 \<and> skipped st1 = skipped st
            \<and> errors st1 = errors st)
         \<or> (rotated st1 = rotated st \<and> copied st1 = copied st \<and> skipped st1 = skipped st + 1
            \<and> errors st1 = errors st)
         \<or> (rotated st1 = rotated st \<and> copied st1 = copied st \<and> skipped st1 = skipped st
            \<and> errors st1 = errors st + 1)"
proof -
  from apply_body_cases [of env corrs cu p st] assms
  consider "st1 = st\<lparr>errors := errors st + 1\<rparr>"
    | w where "st1 = st\<lparr>rotated := rotated st + 1, written := w\<rparr>"
    | "st1 = st\<lparr>copied := copied st + 1, copies := copies st @ [name p]\<rparr>"
    | "st1 = st\<lparr>skipped := skipped st + 1\<rparr>"
    by auto
  then show ?thesis
  proof cases
    case 1
    then show ?thesis by simp
  next
    case 2
    then show ?thesis by simp
  next
    case 3
    then show ?thesis by simp
  next
    case 4
    then show ?thesis by simp
  qed
qed

lemma apply_loop_sum:
  "apply_loop env corrs cu images st = Inr st' \<Longrightarrow>
   rotated st' + copied st' + skipped st' + errors st'
   = rotated st + copied st + skipped st + errors st + length images"
proof (induction images arbitrary: st)
  case Nil
  then show ?case by simp
next
  case (Cons p rest)
  from Cons.prems obtain st1
    where one: "apply_body env corrs cu p st = Inr st1"
      and more: "apply_loop env corrs cu rest st1 = Inr st'"
    by (auto split: sum.splits)
  from apply_body_one [OF one]
  have "rotated st1 + copied st1 + skipped st1 + errors st1
        = rotated st + copied st + skipped st + errors st + 1"
    by auto
  with Cons.IH [OF more] show ?case by simp
qed

lemma apply_body_returns:
  assumes "cu \<and> dict_get kvs (name p) = None \<longrightarrow> copy2 env (name p)"
  shows "\<exists>st1. apply_body env (JObject kvs) cu p st = Inr st1"
proof (cases "dict_get kvs (name p)")
  case None
  with assms show ?thesis by (simp add: apply_body_def Let_def)
next
  case (Some angle)
  show ?thesis
  proof (cases "imread env (name p)")
    case Raised
    with Some show ?thesis by (simp add: apply_body_def Let_def)
  next
    case (Returned res)
    show ?thesis
    proof (cases res)
      case None
      with Some Returned show ?thesis by (simp add: apply_body_def Let_def)
    next
      case img: (Some img)
      with Some Returned show ?thesis
        by (cases "imwrite env (name p) (rotate_image_cv2 img angle)")
           (simp_all add: apply_body_def Let_def)
    qed
  qed
qed

lemma apply_loop_returns:
  assumes "\<forall>p \<in> set images. cu \<and> dict_get kvs (name p) = None \<longrightarrow> copy2 env (name p)"
  shows "\<exists>st'. apply_loop env (JObject kvs) cu images st = Inr st'"
  using assms
proof (induction images arbitrary: st)
  case Nil
  then show ?case by simp
next
  case (Cons p rest)
  from Cons.prems have "cu \<and> dict_get kvs (name p) = None \<longrightarrow> copy2 env (name p)" by simp
  from apply_body_returns [OF this]
  obtain st1 where one: "apply_body env (JObject kvs) cu p st = Inr st1" ..
  from Cons.prems have "\<forall>p \<in> set rest. cu \<and> dict_get kvs (name p) = None \<longrightarrow> copy2 env (name p)"
    by simp
  from Cons.IH [OF this, of st1] obtain st' where "apply_loop env (JObject kvs) cu rest st1 = Inr st'" ..
  with one show ?case by simp
qed

lemma apply_body_angle_zero:
  assumes "dict_get kvs (name p) = Some (JInt 0)"
    and "imread env (name p) = Returned (Some img)"
    and "imwrite env (name p) img = Returned True"
  shows "apply_body env (JObject kvs) cu p st
         = Inr (st\<lparr>rotated := rotated st + 1, written := written st @ [(name p, img)]\<rparr>)"
  using assms by (simp add: apply_body_def Let_def rotate_image_cv2_def)

text \<open>
  C10. Every pass of the loop of apply_corrections.py that does not raise adds one to
  exactly one of \<^verbatim>\<open>rotated\<close>, \<^verbatim>\<open>copied\<close>, \<^verbatim>\<open>skipped\<close> and \<^verbatim>\<open>errors\<close>, so a loop that
  completes leaves their sum equal to the number of images; with an object as corrections
  the loop completes unless \<^verbatim>\<open>shutil.copy2\<close> raises. A file listed with angle 0 that is
  read and written is written back unchanged and counted as rotated.
\<close>

theorem apply_loop_counters:
  "(apply_loop env corrs cu images initial_run = Inr final \<longrightarrow>
      rotated final + copied final + skipped final + errors final = length images)
   \<and> (apply_body env corrs cu p st = Inr st1 \<longrightarrow>
        (rotated st1 = rotated st + 1 \<and> copied st1 = copied st \<and> skipped st1 = skipped st
            \<and> errors st1 = errors st)
         \<or> (rotated st1 = rotated st \<and> copied st1 = copied st + 1 \<and> skipped st1 = skipped st
            \<and> errors st1 = errors st)
         \<or> (rotated st1 = rotated st \<and> copied st1 = copied st \<and> skipped st1 = skipped st + 1
            \<and> errors st1 = errors st)
         \<or> (rotated st1 = rotated st \<and> copied st1 = copied st \<and> skipped st1 = skipped st
            \<and> errors st1 = errors st + 1))
   \<and> ((\<forall>q \<in> set images. cu \<and> dict_get kvs (name q) = None \<longrightarrow> copy2 env (name q)) \<longrightarrow>
        (\<exists>st'. apply_loop env (JObject kvs) cu images initial_run = Inr st'))
   \<and> (dict_get kvs (name p) = Some (JInt 0) \<and> imread env (name p) = Returned (Some img)
        \<and> imwrite env (name p) img = Returned True \<longrightarrow>
        apply_body env (JObject kvs) cu p st
        = Inr (st\<lparr>rotated := rotated st + 1, written := written st @ [(name p, img)]\<rparr>))"
proof (intro conjI impI)
  assume "apply_loop env corrs cu images initial_run = Inr final"
  from apply_loop_sum [OF this]
  show "rotated final + copied final + skipped final + errors final = length images"
    by (simp add: initial_run_def)
next
  assume "apply_body env corrs cu p st = Inr st1"
  then show "(rotated st1 = rotated st + 1 \<and> copied st1 = copied st \<and> skipped st1 = skipped st
            \<and> errors st1 = errors st)
         \<or> (rotated st1 = rotated st \<and> copied st1 = copied st + 1 \<and> skipped st1 = skipped st
            \<and> errors st1 = errors st)
         \<or> (rotated st1 = rotated st \<and> copied st1 = copied st \<and> skipped st1 = skipped st + 1
            \<and> errors st1 = errors st)
         \<or> (rotated st1 = rotated st \<and> copied st1 = copied st \<and> skipped st1 = skipped st
            \<and> errors st1 = errors st + 1)"
    by (rule apply_body_one)
next
  assume "\<forall>q \<in> set images. cu \<and> dict_get kvs (name q) = None \<longrightarrow> copy2 env (name q)"
  then show "\<exists>st'. apply_loop env (JObject kvs) cu images initial_run = Inr st'"
    by (rule apply_loop_returns)
next
  assume "dict_get kvs (name p) = Some (JInt 0) \<and> imread env (name p) = Returned (Some img)
        \<and> imwrite env (name p) img = Returned True"
  then show "apply_body env (JObject kvs) cu p st
        = Inr (st\<lparr>rotated := rotated st + 1, written := written st @ [(name p, img)]\<rparr>)"
    by (simp add: apply_body_angle_zero)
qed


theorem apply_loop_counters_witness:
  "apply_loop
     \<lparr>imread = (\<lambda>n. if n = ''b.jpg'' then Returned None else Returned (Some [[1, 2 :: nat]])),
      imwrite = (\<lambda>n img. Returned True), copy2 = (\<lambda>n. True)\<rparr>
     (JObject [(''a.jpg'', JInt 0), (''b.jpg'', JInt 90)]) False
     [\<lparr>name = ''a.jpg'', st_size = 1\<rparr>, \<lparr>name = ''b.jpg'', st_size = 2\<rparr>, \<lparr>name = ''c.jpg'', st_size = 3\<rparr>]
     initial_run
   = Inr \<lparr>rotated = 1, copied = 0, skipped = 1, errors = 1, written = [(''a.jpg'', [[1, 2]])],
          copies = []\<rparr>
   \<and> (1::nat) + 0 + 1 + 1
     = length [\<lparr>name = ''a.jpg'', st_size = 1\<rparr>, \<lparr>name = ''b.jpg'', st_size = 2\<rparr>,
               \<lparr>name = ''c.jpg'', st_size = 3\<rparr>]"
  using apply_loop_counters
    [where env = "\<lparr>imread = (\<lambda>n. if n = ''b.jpg'' then Returned None else Returned (Some [[1, 2 :: nat]])),
                   imwrite = (\<lambda>n img. Returned True), copy2 = (\<lambda>n. True)\<rparr>"
       and corrs = "JObject [(''a.jpg'', JInt 0), (''b.jpg'', JInt 90)]"
       and kvs = "[(''a.jpg'', JInt 0), (''b.jpg'', JInt 90)]"
       and cu = False
       and images = "[\<lparr>name = ''a.jpg'', st_size = 1\<rparr>, \<lparr>name = ''b.jpg'', st_size = 2\<rparr>,
                      \<lparr>name = ''c.jpg'', st_size = 3\<rparr>]"
       and final = "\<lparr>rotated = 1, copied = 0, skipped = 1, errors = 1,
                      written = [(''a.jpg'', [[1, 2]])], copies = []\<rparr>"
       and p = "\<lparr>name = ''a.jpg'', st_size = 1\<rparr>" and st = initial_run and img = "[[1, 2]]"
       and ?st1.0 = "initial_run\<lparr>rotated := 1, written := [(''a.jpg'', [[1, 2]])]\<rparr>"]
  by (simp add: apply_body_def Let_def initial_run_def dict_get_def rotate_image_cv2_def)

section \<open>Enumerating the images\<close>

lemma rfind_last_dot:
  assumes "CHR ''.'' \<notin> set t"
  shows "rfind (s @ CHR ''.'' # t) CHR ''.'' = int (length s)"
proof -
  have "takeWhile (\<lambda>x. x \<noteq> CHR ''.'') (rev t @ CHR ''.'' # rev s)
        = rev t @ takeWhile (\<lambda>x. x \<noteq> CHR ''.'') (CHR ''.'' # rev s)"
    by (rule takeWhile_append2) (use assms in auto)
  then have "takeWhile (\<lambda>x. x \<noteq> CHR ''.'') (rev (s @ CHR ''.'' # t)) = rev t"
    by simp
  then show ?thesis by (simp add: rfind_def)
qed

lemma extensions_shape:
  assumes "ext \<in> extensions"
  shows "\<exists>t. ext = CHR ''.'' # t \<and> t \<noteq> [] \<and> CHR ''.'' \<notin> set t"
  using assms by (auto simp: extensions_def)

lemma suffix_stem_ext:
  assumes "name f = stem @ ext" and "stem \<noteq> []" and "ext \<in> extensions"
  shows "suffix f = ext"
proof -
  from extensions_shape [OF assms(3)]
  obtain t where t: "ext = CHR ''.'' # t" "t \<noteq> []" "CHR ''.'' \<notin> set t" by blast
  have i: "rfind (name f) CHR ''.'' = int (length stem)"
    using rfind_last_dot [OF t(3), of stem] assms(1) t(1) by simp
  have "0 < length stem" using assms(2) by simp
  moreover have "int (length stem) < int (length (name f)) - 1"
    using assms(1) t(1,2) by (cases t) simp_all
  ultimately show ?thesis using i assms(1) by (simp add: suffix_def)
qed

lemma suffix_in_extensions:
  "suffix f \<in> extensions
   \<longleftrightarrow> (\<exists>stem ext. name f = stem @ ext \<and> stem \<noteq> [] \<and> ext \<in> extensions)"
proof
  assume s: "suffix f \<in> extensions"
  then have ne: "suffix f \<noteq> []" by (auto simp: extensions_def)
  let ?i = "rfind (name f) CHR ''.''"
  from ne have c: "0 < ?i \<and> ?i < int (length (name f)) - 1"
    by (auto simp: suffix_def Let_def split: if_splits)
  then have d: "suffix f = drop (nat ?i) (name f)" by (simp add: suffix_def)
  have "name f = take (nat ?i) (name f) @ suffix f" by (simp add: d)
  moreover have "take (nat ?i) (name f) \<noteq> []" using c by auto
  ultimately show "\<exists>stem ext. name f = stem @ ext \<and> stem \<noteq> [] \<and> ext \<in> extensions"
    using s by blast
next
  assume "\<exists>stem ext. name f = stem @ ext \<and> stem \<noteq> [] \<and> ext \<in> extensions"
  then obtain stem ext where "name f = stem @ ext" "stem \<noteq> []" "ext \<in> extensions" by blast
  then show "suffix f \<in> extensions" by (simp add: suffix_stem_ext)
qed

text \<open>
  C9, as the code has it, for create_pdfs.py: \<^verbatim>\<open>get_image_files\<close> returns exactly the
  directory entries whose name is a non-empty stem followed by one of the six spellings
  \<^verbatim>\<open>.jpeg .jpg .png .JPEG .JPG .PNG\<close>, each as often as the directory yields it, ordered by
  file name.
\<close>

theorem get_image_files_spec:
  "mset (get_image_files listing)
   = filter_mset (\<lambda>f. \<exists>stem ext. name f = stem @ ext \<and> stem \<noteq> [] \<and> ext \<in> extensions)
       (mset listing)
   \<and> sorted (map name (get_image_files listing))"
proof
  have "filter (\<lambda>f. suffix f \<in> extensions) listing
        = filter (\<lambda>f. \<exists>stem ext. name f = stem @ ext \<and> stem \<noteq> [] \<and> ext \<in> extensions) listing"
    by (rule filter_cong) (simp_all add: suffix_in_extensions)
  then show "mset (get_image_files listing)
   = filter_mset (\<lambda>f. \<exists>stem ext. name f = stem @ ext \<and> stem \<noteq> [] \<and> ext \<in> extensions)
       (mset listing)"
    by (simp add: get_image_files_def)
  show "sorted (map name (get_image_files listing))"
    by (simp add: get_image_files_def)
qed

theorem get_image_files_spec_witness:
  "get_image_files [\<lparr>name = ''b.jpg'', st_size = 2\<rparr>, \<lparr>name = ''notes.txt'', st_size = 9\<rparr>,
       \<lparr>name = ''a.PNG'', st_size = 1\<rparr>, \<lparr>name = ''.jpg'', st_size = 4\<rparr>]
   = [\<lparr>name = ''a.PNG'', st_size = 1\<rparr>, \<lparr>name = ''b.jpg'', st_size = 2\<rparr>]
   \<and> sorted (map name [\<lparr>name = ''a.PNG'', st_size = 1\<rparr>, \<lparr>name = ''b.jpg'', st_size = 2\<rparr>])"
proof -
  have e: "get_image_files [\<lparr>name = ''b.jpg'', st_size = 2\<rparr>, \<lparr>name = ''notes.txt'', st_size = 9\<rparr>,
       \<lparr>name = ''a.PNG'', st_size = 1\<rparr>, \<lparr>name = ''.jpg'', st_size = 4\<rparr>]
   = [\<lparr>name = ''a.PNG'', st_size = 1\<rparr>, \<lparr>name = ''b.jpg'', st_size = 2\<rparr>]"
    by (simp add: get_image_files_def suffix_def rfind_def extensions_def)
  from get_image_files_spec [of "[\<lparr>name = ''b.jpg'', st_size = 2\<rparr>, \<lparr>name = ''notes.txt'', st_size = 9\<rparr>,
       \<lparr>name = ''a.PNG'', st_size = 1\<rparr>, \<lparr>name = ''.jpg'', st_size = 4\<rparr>]"] e
  show ?thesis by simp
qed

text \<open>
  C9 as stated fails: an extension in mixed case is an image extension when compared
  without regard to case, but it is none of the six spellings.
\<close>

theorem get_image_files_counterexample:
  "get_image_files [\<lparr>name = ''a.Jpg'', st_size = 1\<rparr>] = []
   \<and> spec_image_sequence [\<lparr>name = ''a.Jpg'', st_size = 1\<rparr>] = [\<lparr>name = ''a.Jpg'', st_size = 1\<rparr>]"
  by (simp add: get_image_files_def spec_image_sequence_def suffix_def rfind_def extensions_def
        lower_def)

section \<open>Loading the review file\<close>

lemma py_set_error: "py_set v = Inl e \<Longrightarrow> e = TypeError"
  by (cases v) (auto split: if_splits)

lemma py_len_error: "py_len v = Inl e \<Longrightarrow> e = TypeError"
  by (cases v) auto

lemma load_review_legacy:
  "\<not> dict_has data ''corrections'' \<Longrightarrow>
   load_review data
   = (case py_len data of
        Inl e \<Rightarrow> Inl e
      | Inr n \<Rightarrow> Inr \<lparr>corrections = data, section_breaks = {}, discards = {}\<rparr>)"
  by (simp add: load_review_def)

lemma load_review_current:
  assumes "dict_get kvs ''corrections'' = Some cs"
  shows "load_review (JObject kvs)
   = (case py_set (case dict_get kvs ''sectionBreaks'' of None \<Rightarrow> JArray [] | Some v \<Rightarrow> v) of
        Inl e \<Rightarrow> Inl e
      | Inr sb \<Rightarrow>
         (case py_set (case dict_get kvs ''discards'' of None \<Rightarrow> JArray [] | Some v \<Rightarrow> v) of
            Inl e \<Rightarrow> Inl e
          | Inr ds \<Rightarrow>
             (case py_len cs of
                Inl e \<Rightarrow> Inl e
              | Inr n \<Rightarrow> Inr \<lparr>corrections = cs, section_breaks = sb, discards = ds\<rparr>)))"
  using assms by (simp add: load_review_def split: sum.splits)

lemma load_review_error:
  assumes "load_review data = Inl e"
  shows "e = TypeError"
proof (cases "dict_has data ''corrections''")
  case False
  with assms show ?thesis
    by (auto simp: load_review_legacy split: sum.splits dest: py_len_error)
next
  case True
  then obtain kvs cs where d: "data = JObject kvs" "dict_get kvs ''corrections'' = Some cs"
    by (cases data) auto
  from assms show ?thesis
    unfolding d(1) load_review_current [OF d(2)]
    by (auto split: sum.splits dest: py_len_error py_set_error)
qed

lemma main_aborts:
  "load_review data = Inl e \<Longrightarrow>
   create_pdfs_main (Some data) listing opener saver max_size = Inl e"
  by (simp add: create_pdfs_main_def)

text \<open>
  C6, as the code has it. No check of the root exists: loading raises \<^verbatim>\<open>TypeError\<close>, and
  nothing else, when the root is \<^verbatim>\<open>null\<close>, a boolean or a number, and the run then ends
  before the directory is listed or an image opened. An object without a
  \<^verbatim>\<open>corrections\<close> key, and also an array or a string, is taken whole as the rotations,
  with no section breaks and no discards. An object with a \<^verbatim>\<open>corrections\<close> key is read
  as the current shape, absent \<^verbatim>\<open>sectionBreaks\<close> and \<^verbatim>\<open>discards\<close> being empty, when
  \<^verbatim>\<open>set\<close> accepts the two values and \<^verbatim>\<open>len\<close> the corrections; otherwise it raises
  \<^verbatim>\<open>TypeError\<close> as well.
\<close>

theorem load_review_outcome:
  "(data = JNull \<or> data = JBool b \<or> data = JInt i \<or> data = JFloat q \<longrightarrow>
      load_review data = Inl TypeError)
   \<and> (data = JArray xs \<or> data = JString s
        \<or> (data = JObject kvs \<and> dict_get kvs ''corrections'' = None) \<longrightarrow>
      load_review data = Inr \<lparr>corrections = data, section_breaks = {}, discards = {}\<rparr>)
   \<and> (data = JObject kvs \<and> dict_get kvs ''corrections'' = Some cs \<longrightarrow>
      load_review data
      = (case (py_len cs,
               py_set (case dict_get kvs ''sectionBreaks'' of None \<Rightarrow> JArray [] | Some v \<Rightarrow> v),
               py_set (case dict_get kvs ''discards'' of None \<Rightarrow> JArray [] | Some v \<Rightarrow> v)) of
           (Inr n, Inr sb, Inr ds) \<Rightarrow> Inr \<lparr>corrections = cs, section_breaks = sb, discards = ds\<rparr>
         | _ \<Rightarrow> Inl TypeError))
   \<and> (load_review data = Inl e \<longrightarrow>
        e = TypeError \<and> create_pdfs_main (Some data) listing opener saver max_size = Inl e)"
proof (intro conjI impI)
  assume "data = JNull \<or> data = JBool b \<or> data = JInt i \<or> data = JFloat q"
  then show "load_review data = Inl TypeError"
    by (auto simp: load_review_legacy)
next
  assume "data = JArray xs \<or> data = JString s
        \<or> (data = JObject kvs \<and> dict_get kvs ''corrections'' = None)"
  then show "load_review data = Inr \<lparr>corrections = data, section_breaks = {}, discards = {}\<rparr>"
    by (auto simp: load_review_legacy)
next
  assume a: "data = JObject kvs \<and> dict_get kvs ''corrections'' = Some cs"
  then have d: "data = JObject kvs" and c: "dict_get kvs ''corrections'' = Some cs" by simp_all
  show "load_review data
      = (case (py_len cs,
               py_set (case dict_get kvs ''sectionBreaks'' of None \<Rightarrow> JArray [] | Some v \<Rightarrow> v),
               py_set (case dict_get kvs ''discards'' of None \<Rightarrow> JArray [] | Some v \<Rightarrow> v)) of
           (Inr n, Inr sb, Inr ds) \<Rightarrow> Inr \<lparr>corrections = cs, section_breaks = sb, discards = ds\<rparr>
         | _ \<Rightarrow> Inl TypeError)"
    unfolding d load_review_current [OF c]
    by (auto split: sum.splits dest: py_len_error py_set_error)
next
  assume "load_review data = Inl e"
  then show "e = TypeError" by (rule load_review_error)
next
  assume "load_review data = Inl e"
  then show "create_pdfs_main (Some data) listing opener saver max_size = Inl e"
    by (rule main_aborts)
qed

theorem load_review_outcome_witness:
  "load_review (JObject [(''corrections'', JObject [(''a.jpg'', JInt 90)]),
                         (''sectionBreaks'', JArray [JString ''c.jpg'']),
                         (''discards'', JArray [JString ''b.jpg''])])
   = Inr \<lparr>corrections = JObject [(''a.jpg'', JInt 90)], section_breaks = {JString ''c.jpg''},
          discards = {JString ''b.jpg''}\<rparr>
   \<and> load_review (JObject [(''a.jpg'', JInt 90)])
     = Inr \<lparr>corrections = JObject [(''a.jpg'', JInt 90)], section_breaks = {}, discards = {}\<rparr>
   \<and> load_review (JInt 3) = Inl TypeError
   \<and> create_pdfs_main (Some (JInt 3)) (Some [\<lparr>name = ''a.jpg'', st_size = 1\<rparr>])
        (\<lambda>p. Some [[0 :: nat]]) (\<lambda>pages. True) 200 = Inl TypeError"
  using load_review_outcome
      [where data = "JObject [(''corrections'', JObject [(''a.jpg'', JInt 90)]),
                         (''sectionBreaks'', JArray [JString ''c.jpg'']),
                         (''discards'', JArray [JString ''b.jpg''])]"
         and kvs = "[(''corrections'', JObject [(''a.jpg'', JInt 90)]),
                         (''sectionBreaks'', JArray [JString ''c.jpg'']),
                         (''discards'', JArray [JString ''b.jpg''])]"
         and cs = "JObject [(''a.jpg'', JInt 90)]"
         and e = TypeError and listing = "Some [\<lparr>name = ''a.jpg'', st_size = 1\<rparr>]"
         and opener = "\<lambda>p. Some [[0 :: nat]]" and saver = "\<lambda>pages. True" and max_size = 200]
    load_review_outcome
      [where data = "JObject [(''a.jpg'', JInt 90)]" and kvs = "[(''a.jpg'', JInt 90)]"
         and e = TypeError and listing = "Some [\<lparr>name = ''a.jpg'', st_size = 1\<rparr>]"
         and opener = "\<lambda>p. Some [[0 :: nat]]" and saver = "\<lambda>pages. True" and max_size = 200]
    load_review_outcome
      [where data = "JInt 3" and i = 3 and e = TypeError
         and listing = "Some [\<lparr>name = ''a.jpg'', st_size = 1\<rparr>]"
         and opener = "\<lambda>p. Some [[0 :: nat]]" and saver = "\<lambda>pages. True" and max_size = 200]
  by (simp add: dict_get_def)

text \<open>
  C6 as stated fails in both directions: an array as root is loaded without an error, and
  an object whose \<^verbatim>\<open>sectionBreaks\<close> is a number is not.
\<close>

theorem load_review_counterexample:
  "load_review (JArray []) = Inr \<lparr>corrections = JArray [], section_breaks = {}, discards = {}\<rparr>
   \<and> load_review (JObject [(''corrections'', JObject []), (''sectionBreaks'', JInt 5)])
     = Inl TypeError"
  by (simp add: load_review_def dict_get_def)

end
